theory Spec2Isabelle
  imports Main "HOL-Library.Word" "HOL-Library.Char_ord" "HOL-Library.List_Lexorder"
begin

unbundle bit_operations_syntax

section \<open>Data model of the JSON encoder (src/pkg/json/encode.go)\<close>

text \<open>
  A Go string and a Go byte slice are sequences of bytes; an Isabelle \<open>char\<close> is one
  byte, so both are \<open>char list\<close>. Go compares strings bytewise, which is the
  lexicographic order on \<open>char list\<close> given by Char_ord and List_Lexorder.
\<close>

type_synonym bytes = "char list"

text \<open>A \<open>reflect.Type\<close>, identified by the name \<open>Type.String()\<close> prints.\<close>

type_synonym rtype = "char list"

text \<open>An \<open>os.Error\<close> returned by a collaborator (a MarshalJSON hook, Compact).\<close>

type_synonym oserror = "char list"

text \<open>The three error types of encode.go (lines 157-180).\<close>

datatype error =
    UnsupportedTypeError rtype
  | InvalidUTF8Error bytes
  | MarshalerError rtype oserror

text \<open>\<open>reflect.Kind\<close>, as far as the encoder asks for the kind of a type (a map's key type).\<close>

datatype Kind =
    KInvalid | KBool | KInt | KInt8 | KInt16 | KInt32 | KInt64
  | KUint | KUint8 | KUint16 | KUint32 | KUint64 | KUintptr
  | KFloat32 | KFloat64 | KComplex64 | KComplex128
  | KArray | KChan | KFunc | KInterface | KMap | KPtr | KSlice | KString | KStruct
  | KUnsafePointer

text \<open>
  A \<open>reflect.StructField\<close>: the three things the encoder reads from \<open>t.Field(i)\<close>.
  \<open>Tag\<close> is the value of \<open>f.Tag.Get("json")\<close>.
\<close>

record StructField =
  Name :: bytes
  PkgPath :: bytes
  Tag :: bytes

text \<open>
  Floating-point arithmetic is not modelled. A float value is given by the two things the
  encoder observes of it: whether \<open>v.Float() == 0\<close>, and the text
  \<open>strconv.FtoaN(v.Float(), 'g', -1, bits)\<close>.
\<close>

record floatval =
  isZero :: bool
  FtoaN :: bytes

text \<open>
  A \<open>reflect.Value\<close>, one constructor for each group of kinds that
  \<open>reflectValueQuoted\<close> and \<open>isEmptyValue\<close> tell apart.
  \<^item> \<open>VInvalid\<close>: the zero Value (\<open>!v.IsValid()\<close>), e.g. \<open>reflect.ValueOf(nil)\<close>.
  \<^item> \<open>VMarshaler t h v\<close>: a value of type \<open>t\<close> whose \<open>v.Interface()\<close> implements
    Marshaler; \<open>h\<close> is what \<open>MarshalJSON()\<close> returns (bytes and error, \<open>None\<close> for a nil
    error) and \<open>v\<close> is the value as its kind shows it.
  \<^item> \<open>VInt\<close>, \<open>VUint\<close>: \<open>v.Int()\<close> and \<open>v.Uint()\<close>, 64 bits wide.
  \<^item> \<open>VStruct\<close>: the fields in declaration order, \<open>t.Field(i)\<close> with \<open>v.Field(i)\<close>.
  \<^item> \<open>VMap t k es\<close>: a map of type \<open>t\<close> whose key type has kind \<open>k\<close>; \<open>None\<close> is the nil
    map, \<open>Some es\<close> the entries in the order \<open>v.MapKeys()\<close> yields the keys (keys as
    \<open>k.String()\<close> reads them).
  \<^item> \<open>VArrayOrSlice t xs\<close>: an array or slice of type \<open>t\<close> with elements \<open>xs\<close>.
  \<^item> \<open>VInterfaceOrPtr\<close>: \<open>None\<close> when \<open>v.IsNil()\<close>, else \<open>v.Elem()\<close>.
  \<^item> \<open>VOther t\<close>: every remaining kind (complex, chan, func, unsafe pointer).
\<close>

datatype val =
    VInvalid
  | VMarshaler rtype "bytes \<times> oserror option" val
  | VBool bool
  | VInt "64 word"
  | VUint "64 word"
  | VFloat floatval
  | VString bytes
  | VStruct "(StructField \<times> val) list"
  | VMap rtype Kind "(bytes \<times> val) list option"
  | VArrayOrSlice rtype "val list"
  | VInterfaceOrPtr "val option"
  | VOther rtype

text \<open>
  Collaborators that are not part of encode.go, taken as parameters: the Unicode tables
  behind \<open>unicode.IsLetter\<close> and \<open>unicode.IsDigit\<close> (on code points), and \<open>Compact\<close>,
  which either fails or yields the bytes it appends to the buffer.
\<close>

record env =
  IsLetter :: "nat \<Rightarrow> bool"
  IsDigit :: "nat \<Rightarrow> bool"
  Compact :: "bytes \<Rightarrow> oserror + bytes"

text \<open>
  What a piece of the encoder did to the \<open>encodeState\<close> buffer: \<open>Wrote bs\<close> appended
  \<open>bs\<close> and returned; \<open>Panicked bs err\<close> appended \<open>bs\<close> and then called
  \<open>e.error(err)\<close>, which panics.
\<close>

datatype writes = Wrote bytes | Panicked bytes error

fun andThen :: "writes \<Rightarrow> writes \<Rightarrow> writes" where
  "andThen (Wrote a) (Wrote b) = Wrote (a @ b)"
| "andThen (Wrote a) (Panicked b err) = Panicked (a @ b) err"
| "andThen (Panicked a err) w = Panicked a err"

section \<open>Library functions the encoder calls\<close>

definition hex :: bytes where
  "hex = ''0123456789abcdef''"

definition RuneSelf :: nat where
  "RuneSelf = 0x80"

definition RuneError :: nat where
  "RuneError = 0xFFFD"

text \<open>
  Modelled from the spec: \<open>utf8.DecodeRuneInString\<close> is not under src/. The spec speaks
  of "a byte sequence that cannot be decoded as valid UTF-8"; this is the UTF-8 decoder
  of one code point: it returns the code point and its width in bytes, and
  \<open>(RuneError, 1)\<close> for every sequence that is not valid UTF-8: a stray continuation
  byte, a truncated or overlong sequence, a surrogate half (U+D800 to U+DFFF), a code
  point above U+10FFFF, or a byte that starts no sequence (\<open>(RuneError, 0)\<close> for the
  empty string).
\<close>

definition surrogateMin :: nat where
  "surrogateMin = 0xD800"

definition surrogateMax :: nat where
  "surrogateMax = 0xDFFF"

definition MaxRune :: nat where
  "MaxRune = 0x10FFFF"

definition isCont :: "char \<Rightarrow> bool" where
  "isCont c = (0x80 \<le> (of_char c :: nat) \<and> (of_char c :: nat) < 0xC0)"

definition rune2 :: "char \<Rightarrow> char \<Rightarrow> nat" where
  "rune2 b0 b1 = (of_char b0 mod 0x20) * 0x40 + of_char b1 mod 0x40"

definition rune3 :: "char \<Rightarrow> char \<Rightarrow> char \<Rightarrow> nat" where
  "rune3 b0 b1 b2 =
    (of_char b0 mod 0x10) * 0x1000 + (of_char b1 mod 0x40) * 0x40 + of_char b2 mod 0x40"

definition rune4 :: "char \<Rightarrow> char \<Rightarrow> char \<Rightarrow> char \<Rightarrow> nat" where
  "rune4 b0 b1 b2 b3 =
    (of_char b0 mod 0x08) * 0x40000 + (of_char b1 mod 0x40) * 0x1000
      + (of_char b2 mod 0x40) * 0x40 + of_char b3 mod 0x40"

fun DecodeRuneInString :: "bytes \<Rightarrow> nat \<times> nat" where
  "DecodeRuneInString [] = (RuneError, 0)"
| "DecodeRuneInString (b0 # rest) =
    (if (of_char b0 :: nat) < 0x80 then (of_char b0, 1)
     else if (of_char b0 :: nat) < 0xC0 then (RuneError, 1)
     else (case rest of
        [] \<Rightarrow> (RuneError, 1)
      | b1 # rest1 \<Rightarrow>
         if \<not> isCont b1 then (RuneError, 1)
         else if (of_char b0 :: nat) < 0xE0 then
           (if rune2 b0 b1 \<le> 0x7F then (RuneError, 1) else (rune2 b0 b1, 2))
         else (case rest1 of
            [] \<Rightarrow> (RuneError, 1)
          | b2 # rest2 \<Rightarrow>
             if \<not> isCont b2 then (RuneError, 1)
             else if (of_char b0 :: nat) < 0xF0 then
               (if rune3 b0 b1 b2 \<le> 0x7FF then (RuneError, 1)
                else if surrogateMin \<le> rune3 b0 b1 b2 \<and> rune3 b0 b1 b2 \<le> surrogateMax
                  then (RuneError, 1)
                else (rune3 b0 b1 b2, 3))
             else (case rest2 of
                [] \<Rightarrow> (RuneError, 1)
              | b3 # rest3 \<Rightarrow>
                 if \<not> isCont b3 then (RuneError, 1)
                 else if (of_char b0 :: nat) < 0xF8 then
                   (if rune4 b0 b1 b2 b3 \<le> 0xFFFF \<or> MaxRune < rune4 b0 b1 b2 b3
                    then (RuneError, 1)
                    else (rune4 b0 b1 b2 b3, 4))
                 else (RuneError, 1)))))"

lemma DecodeRuneInString_size_pos:
  "s \<noteq> [] \<Longrightarrow> 1 \<le> snd (DecodeRuneInString s)"
  by (cases s) (auto split: list.splits)

lemma DecodeRuneInString_pos:
  "s \<noteq> [] \<Longrightarrow> (c, sz) = DecodeRuneInString s \<Longrightarrow> 0 < sz"
  using DecodeRuneInString_size_pos [of s] by (cases "DecodeRuneInString s") simp

lemma DecodeRuneInString_size_le:
  "snd (DecodeRuneInString s) \<le> length s"
  by (cases s) (auto split: list.splits)

text \<open>
  Modelled from the spec: \<open>strconv.Uitoa64\<close> and \<open>strconv.Itoa64\<close> are not under src/;
  they give the decimal digits of an unsigned and of a signed 64-bit integer ("digit
  text").
\<close>

function digits :: "nat \<Rightarrow> bytes" where
  "digits n = (if n < 10 then [hex ! n] else digits (n div 10) @ [hex ! (n mod 10)])"
  by pat_completeness auto
termination
  by (relation "measure id") auto

declare digits.simps [simp del]

definition Uitoa64 :: "64 word \<Rightarrow> bytes" where
  "Uitoa64 u = digits (unat u)"

definition Itoa64 :: "64 word \<Rightarrow> bytes" where
  "Itoa64 i = (if sint i < 0 then CHR ''-'' # Uitoa64 (- i) else Uitoa64 i)"

text \<open>
  Modelled from the spec: \<open>base64.StdEncoding\<close> is not under src/; this is base64 with
  the standard alphabet and \<open>=\<close> padding. \<open>Encode\<close> into a buffer and the streaming
  \<open>NewEncoder\<close> produce the same bytes.
\<close>

definition encodeStd :: bytes where
  "encodeStd = ''ABCDEFGHIJKLMNOPQRSTUVWXYZabcdefghijklmnopqrstuvwxyz0123456789+/''"

fun base64Encode :: "bytes \<Rightarrow> bytes" where
  "base64Encode [] = []"
| "base64Encode [a] =
    (let x = (of_char a :: nat) in
     [encodeStd ! (x div 4), encodeStd ! ((x mod 4) * 16), CHR ''='', CHR ''=''])"
| "base64Encode [a, b] =
    (let x = (of_char a :: nat); y = (of_char b :: nat) in
     [encodeStd ! (x div 4), encodeStd ! ((x mod 4) * 16 + y div 16),
      encodeStd ! ((y mod 16) * 4), CHR ''=''])"
| "base64Encode (a # b # c # rest) =
    (let x = (of_char a :: nat); y = (of_char b :: nat); z = (of_char c :: nat) in
     [encodeStd ! (x div 4), encodeStd ! ((x mod 4) * 16 + y div 16),
      encodeStd ! ((y mod 16) * 4 + z div 64), encodeStd ! (z mod 64)]
     @ base64Encode rest)"

text \<open>
  Modelled from the spec: \<open>parseTag\<close> and \<open>tagOptions.Contains\<close> are not under src/.
  The spec: the tag "splits on the first comma"; the prefix is the name; the "remaining
  comma-separated tokens become options".
\<close>

definition parseTag :: "bytes \<Rightarrow> bytes \<times> bytes" where
  "parseTag tag =
    (if CHR '','' \<in> set tag
     then (takeWhile (\<lambda>c. c \<noteq> CHR '','') tag, tl (dropWhile (\<lambda>c. c \<noteq> CHR '','') tag))
     else (tag, []))"

fun splitComma :: "bytes \<Rightarrow> bytes list" where
  "splitComma [] = [[]]"
| "splitComma (c # cs) =
    (if c = CHR '','' then [] # splitComma cs
     else (case splitComma cs of [] \<Rightarrow> [[c]] | t # ts \<Rightarrow> (c # t) # ts))"

definition Contains :: "bytes \<Rightarrow> bytes \<Rightarrow> bool" where
  "Contains opts optionName = (opts \<noteq> [] \<and> optionName \<in> set (splitComma opts))"

section \<open>encode.go\<close>

text \<open>\<open>for _, c := range s\<close>: the code points of a string, one decoding step at a time.\<close>

function runes :: "bytes \<Rightarrow> nat list" where
  "runes [] = []"
| "runes (b # bs) =
    (case DecodeRuneInString (b # bs) of (c, sz) \<Rightarrow> c # runes (drop sz (b # bs)))"
  by pat_completeness auto
termination
  by (relation "measure length")
     (auto dest!: DecodeRuneInString_pos [rotated] simp del: DecodeRuneInString.simps)

text \<open>\<open>isValidTag\<close> (lines 386-396).\<close>

fun isValidTagLoop :: "env \<Rightarrow> nat list \<Rightarrow> bool" where
  "isValidTagLoop E [] = True"
| "isValidTagLoop E (c # cs) =
    (if c \<noteq> of_char (CHR ''$'') \<and> c \<noteq> of_char (CHR ''-'') \<and> c \<noteq> of_char (CHR ''_'')
        \<and> \<not> IsLetter E c \<and> \<not> IsDigit E c
     then False
     else isValidTagLoop E cs)"

definition isValidTag :: "env \<Rightarrow> bytes \<Rightarrow> bool" where
  "isValidTag E s = (if s = [] then False else isValidTagLoop E (runes s))"

text \<open>\<open>isEmptyValue\<close> (lines 213-229). The kind of a value that implements Marshaler is
  the kind of the value itself.\<close>

fun isEmptyValue :: "val \<Rightarrow> bool" where
  "isEmptyValue (VArrayOrSlice t xs) = (length xs = 0)"
| "isEmptyValue (VMap t k None) = True"
| "isEmptyValue (VMap t k (Some es)) = (length es = 0)"
| "isEmptyValue (VString s) = (length s = 0)"
| "isEmptyValue (VBool b) = (\<not> b)"
| "isEmptyValue (VInt i) = (i = 0)"
| "isEmptyValue (VUint u) = (u = 0)"
| "isEmptyValue (VFloat f) = isZero f"
| "isEmptyValue (VInterfaceOrPtr p) = (p = None)"
| "isEmptyValue (VMarshaler t h v) = isEmptyValue v"
| "isEmptyValue (VStruct fs) = False"
| "isEmptyValue (VOther t) = False"
| "isEmptyValue VInvalid = False"

text \<open>\<open>(*encodeState).string\<close> (lines 407-454): the switch on an ASCII byte that needs
  an escape, and the scanning loop with its indices \<open>i\<close> and \<open>start\<close>.\<close>

definition escape :: "char \<Rightarrow> bytes" where
  "escape b =
    (if b = CHR 0x5C \<or> b = CHR 0x22 then [CHR 0x5C, b]
     else if b = CHR 0x0A then [CHR 0x5C, CHR ''n'']
     else if b = CHR 0x0D then [CHR 0x5C, CHR ''r'']
     else [CHR 0x5C, CHR ''u'', CHR ''0'', CHR ''0'',
           hex ! drop_bit 4 (of_char b :: nat), hex ! ((of_char b :: nat) AND 0xF)])"

definition substring :: "bytes \<Rightarrow> nat \<Rightarrow> nat \<Rightarrow> bytes" where
  "substring s lo hi = take (hi - lo) (drop lo s)"

function stringLoop :: "bytes \<Rightarrow> nat \<Rightarrow> nat \<Rightarrow> writes" where
  "stringLoop s i start =
    (if i < length s then
       (let b = s ! i in
        if (of_char b :: nat) < RuneSelf then
          (if 0x20 \<le> (of_char b :: nat) \<and> b \<noteq> CHR 0x5C \<and> b \<noteq> CHR 0x22
              \<and> b \<noteq> CHR ''<'' \<and> b \<noteq> CHR ''>''
           then stringLoop s (i + 1) start
           else andThen (Wrote ((if start < i then substring s start i else []) @ escape b))
                  (stringLoop s (i + 1) (i + 1)))
        else
          (case DecodeRuneInString (drop i s) of (c, sz) \<Rightarrow>
             if c = RuneError \<and> sz = 1 then Panicked [] (InvalidUTF8Error s)
             else stringLoop s (i + sz) start))
     else Wrote ((if start < length s then drop start s else []) @ [CHR 0x22]))"
  by pat_completeness auto
termination
  by (relation "measure (\<lambda>(s, i, start). length s - i)")
     (auto dest!: DecodeRuneInString_pos [rotated] simp del: DecodeRuneInString.simps)

declare stringLoop.simps [simp del]

definition string_enc :: "bytes \<Rightarrow> writes" where
  "string_enc s = andThen (Wrote [CHR 0x22]) (stringLoop s 0 0)"

text \<open>The key and the options of a struct field (lines 299-307).\<close>

definition fieldOptions :: "env \<Rightarrow> StructField \<Rightarrow> bytes \<times> bool \<times> bool" where
  "fieldOptions E f =
    (if Tag f \<noteq> [] then
       (case parseTag (Tag f) of (name, opts) \<Rightarrow>
          (if isValidTag E name then name else Name f,
           Contains opts ''omitempty'', Contains opts ''string''))
     else (Name f, False, False))"

text \<open>\<open>writeString\<close> is \<open>(*encodeState).WriteString\<close>, or \<open>(*encodeState).string\<close>
  when \<open>quoted\<close> (lines 255-258).\<close>

definition writeString :: "bool \<Rightarrow> bytes \<Rightarrow> writes" where
  "writeString quoted s = (if quoted then string_enc s else Wrote s)"

definition byteSliceType :: rtype where
  "byteSliceType = ''[]uint8''"

text \<open>\<open>v.Interface().([]byte)\<close>: the elements of a byte slice are values of kind Uint8.\<close>

definition byteOf :: "val \<Rightarrow> char" where
  "byteOf x = (case x of VUint u \<Rightarrow> char_of (unat u) | _ \<Rightarrow> CHR 0x00)"

text \<open>\<open>v.MapIndex(k)\<close>: the value stored under \<open>k\<close>, the zero Value when there is none.\<close>

definition MapIndex :: "(bytes \<times> val) list \<Rightarrow> bytes \<Rightarrow> val" where
  "MapIndex es k = (case map_of es k of None \<Rightarrow> VInvalid | Some x \<Rightarrow> x)"

lemma size_MapIndex:
  "size (MapIndex es k) \<le> size_list (size_prod (\<lambda>_. 0) size) es"
proof (cases "map_of es k")
  case None
  then show ?thesis by (simp add: MapIndex_def)
next
  case (Some x)
  then have "(k, x) \<in> set es" by (rule map_of_SomeD)
  then have "size_prod (\<lambda>_. 0) size (k, x) \<le> size_list (size_prod (\<lambda>_. 0) size) es"
    by (rule size_list_estimation') simp
  with Some show ?thesis by (simp add: MapIndex_def)
qed

text \<open>
  \<open>reflectValueQuoted\<close> (lines 237-384) with its three loops (over the fields of a
  struct, the sorted keys of a map, the elements of an array or slice),
  \<open>reflectValue\<close>, \<open>marshal\<close> (which recovers the panic and returns the buffer as it
  stands, with the error) and \<open>Marshal\<close> (which drops the buffer on an error).
  They are mutually recursive: a quoted string field calls \<open>Marshal\<close>.
\<close>

function reflectValueQuoted :: "env \<Rightarrow> val \<Rightarrow> bool \<Rightarrow> writes"
  and structLoop :: "env \<Rightarrow> (StructField \<times> val) list \<Rightarrow> bool \<Rightarrow> writes"
  and mapLoop :: "env \<Rightarrow> (bytes \<times> val) list \<Rightarrow> bytes list \<Rightarrow> nat \<Rightarrow> writes"
  and arrayLoop :: "env \<Rightarrow> val list \<Rightarrow> nat \<Rightarrow> writes"
  and reflectValue :: "env \<Rightarrow> val \<Rightarrow> writes"
  and marshal :: "env \<Rightarrow> val \<Rightarrow> bytes \<times> error option"
  and Marshal :: "env \<Rightarrow> val \<Rightarrow> bytes option \<times> error option"
where
  "reflectValueQuoted E VInvalid quoted = Wrote ''null''"
| "reflectValueQuoted E (VMarshaler t h v) quoted =
    (case h of
       (b, None) \<Rightarrow>
         (case Compact E b of
            Inl err \<Rightarrow> Panicked [] (MarshalerError t err)
          | Inr out \<Rightarrow> Wrote out)
     | (b, Some err) \<Rightarrow> Panicked [] (MarshalerError t err))"
| "reflectValueQuoted E (VBool x) quoted =
    (if x then writeString quoted ''true'' else writeString quoted ''false'')"
| "reflectValueQuoted E (VInt i) quoted = writeString quoted (Itoa64 i)"
| "reflectValueQuoted E (VUint u) quoted = writeString quoted (Uitoa64 u)"
| "reflectValueQuoted E (VFloat f) quoted = writeString quoted (FtoaN f)"
| "reflectValueQuoted E (VString s) quoted =
    (if quoted then
       (case Marshal E (VString s) of
          (sb, Some err) \<Rightarrow> Panicked [] err
        | (Some sb, None) \<Rightarrow> string_enc sb
        | (None, None) \<Rightarrow> string_enc [])
     else string_enc s)"
| "reflectValueQuoted E (VStruct fs) quoted =
    andThen (Wrote ''{'') (andThen (structLoop E fs True) (Wrote ''}''))"
| "reflectValueQuoted E (VMap t k m) quoted =
    (if k \<noteq> KString then Panicked [] (UnsupportedTypeError t)
     else (case m of
        None \<Rightarrow> Wrote ''null''
      | Some es \<Rightarrow>
          andThen (Wrote ''{'')
            (andThen (mapLoop E es (sort (map fst es)) 0) (Wrote ''}''))))"
| "reflectValueQuoted E (VArrayOrSlice t xs) quoted =
    (if t = byteSliceType then
       (let s = map byteOf xs in
        Wrote ([CHR 0x22]
          @ (if length s < 1024 then base64Encode s else base64Encode s)
          @ [CHR 0x22]))
     else andThen (Wrote ''['') (andThen (arrayLoop E xs 0) (Wrote '']'')))"
| "reflectValueQuoted E (VInterfaceOrPtr p) quoted =
    (case p of None \<Rightarrow> Wrote ''null'' | Some x \<Rightarrow> reflectValue E x)"
| "reflectValueQuoted E (VOther t) quoted = Panicked [] (UnsupportedTypeError t)"
| "structLoop E [] first = Wrote []"
| "structLoop E ((f, fieldValue) # rest) first =
    (if PkgPath f \<noteq> [] then structLoop E rest first
     else (case fieldOptions E f of (tag, omitEmpty, quoted) \<Rightarrow>
        if omitEmpty \<and> isEmptyValue fieldValue then structLoop E rest first
        else andThen (Wrote (if first then [] else '',''))
              (andThen (string_enc tag)
                (andThen (Wrote '':'')
                  (andThen (reflectValueQuoted E fieldValue quoted)
                    (structLoop E rest False))))))"
| "mapLoop E es [] i = Wrote []"
| "mapLoop E es (k # ks) i =
    andThen (Wrote (if i > 0 then '','' else []))
      (andThen (string_enc k)
        (andThen (Wrote '':'')
          (andThen (reflectValue E (MapIndex es k))
            (mapLoop E es ks (i + 1)))))"
| "arrayLoop E [] i = Wrote []"
| "arrayLoop E (x # xs) i =
    andThen (Wrote (if i > 0 then '','' else []))
      (andThen (reflectValue E x) (arrayLoop E xs (i + 1)))"
| "reflectValue E v = reflectValueQuoted E v False"
| "marshal E v =
    (case reflectValue E v of
       Wrote b \<Rightarrow> (b, None)
     | Panicked b err \<Rightarrow> (b, Some err))"
| "Marshal E v =
    (case marshal E v of
       (b, Some err) \<Rightarrow> (None, Some err)
     | (b, None) \<Rightarrow> (Some b, None))"
  by pat_completeness auto
termination
  by (relation "measures [
     (\<lambda>x. case x of
        Inl (Inl (E, v, q)) \<Rightarrow> size v
      | Inl (Inr (Inl (E, fs, first))) \<Rightarrow> size_list (size_prod (\<lambda>_. 0) size) fs
      | Inl (Inr (Inr (E, es, ks, i))) \<Rightarrow> Suc (size_list (size_prod (\<lambda>_. 0) size) es)
      | Inr (Inl (Inl (E, xs, i))) \<Rightarrow> size_list size xs
      | Inr (Inl (Inr (E, v))) \<Rightarrow> size v
      | Inr (Inr (Inl (E, v))) \<Rightarrow> size v
      | Inr (Inr (Inr (E, v))) \<Rightarrow> size v),
     (\<lambda>x. case x of
        Inl (Inl (E, v, q)) \<Rightarrow> (if q then 4 else 0)
      | Inl (Inr (Inl (E, fs, first))) \<Rightarrow> 0
      | Inl (Inr (Inr (E, es, ks, i))) \<Rightarrow> length ks
      | Inr (Inl (Inl (E, xs, i))) \<Rightarrow> 0
      | Inr (Inl (Inr (E, v))) \<Rightarrow> 1
      | Inr (Inr (Inl (E, v))) \<Rightarrow> 2
      | Inr (Inr (Inr (E, v))) \<Rightarrow> 3)]")
    (simp_all add: less_Suc_eq_le size_MapIndex)

section \<open>Definitions used to state the properties\<close>

text \<open>
  A string is valid when decoding it code point by code point never yields
  \<open>(RuneError, 1)\<close>, the result \<open>(*encodeState).string\<close> tests for.
\<close>

function validUTF8 :: "bytes \<Rightarrow> bool" where
  "validUTF8 [] = True"
| "validUTF8 (b # bs) =
    (case DecodeRuneInString (b # bs) of (c, sz) \<Rightarrow>
       \<not> (c = RuneError \<and> sz = 1) \<and> validUTF8 (drop sz (b # bs)))"
  by pat_completeness auto
termination
  by (relation "measure length")
     (auto dest!: DecodeRuneInString_pos [rotated] simp del: DecodeRuneInString.simps)

text \<open>
  The escaping of one byte in the words of the spec (4.3): \<open><\<close> and \<open>>\<close> become
  \<open>\u003c\<close> and \<open>\u003e\<close>; newline, carriage return, backslash and double quote get
  their two-character escapes; any other byte below 0x20 becomes \<open>\u00XX\<close>; every other
  byte, \<open>&\<close> included, is copied.
\<close>

definition jsonEscape :: "char \<Rightarrow> bytes" where
  "jsonEscape b =
    (if b = CHR ''<'' then CHR 0x5C # ''u003c''
     else if b = CHR ''>'' then CHR 0x5C # ''u003e''
     else if b = CHR 0x0A then CHR 0x5C # ''n''
     else if b = CHR 0x0D then CHR 0x5C # ''r''
     else if b = CHR 0x5C then [CHR 0x5C, CHR 0x5C]
     else if b = CHR 0x22 then [CHR 0x5C, CHR 0x22]
     else if (of_char b :: nat) < 0x20
       then CHR 0x5C # ''u00'' @ [hex ! (of_char b div 16), hex ! (of_char b mod 16)]
     else [b])"

text \<open>The bytes the scanning loop of \<open>(*encodeState).string\<close> steps over (line 413).\<close>

definition safeByte :: "char \<Rightarrow> bool" where
  "safeByte b = (0x20 \<le> (of_char b :: nat) \<and> b \<noteq> CHR 0x5C \<and> b \<noteq> CHR 0x22
              \<and> b \<noteq> CHR ''<'' \<and> b \<noteq> CHR ''>'')"


text \<open>The members of a JSON object in the words of the spec (4.4): comma-separated
  \<open>key:value\<close> pairs, each pair given as the text of its key and the text of its value.\<close>

fun joinMembers :: "(bytes \<times> bytes) list \<Rightarrow> bytes" where
  "joinMembers [] = []"
| "joinMembers [(k, v)] = k @ '':'' @ v"
| "joinMembers ((k, v) # m # ms) = k @ '':'' @ v @ '','' @ joinMembers (m # ms)"

text \<open>
  Where the traversal gets to. A path names a value inside the input: \<open>Deref\<close> follows
  a non-nil interface or pointer, \<open>Index n\<close> takes element \<open>n\<close> of an array or slice that
  is not a byte slice, \<open>Field n\<close> takes field \<open>n\<close> of a struct, \<open>Key n\<close> takes the value of
  the \<open>n\<close>-th key, in sorted order, of a map with string keys. \<open>reached E v q path\<close> is
  the value at the path, with the quoting flag it is encoded under, when
  \<open>reflectValueQuoted E v q\<close> gets to encode it: everything the loops write before it
  was written without a panic, and a struct field on the way is exported, not omitted
  and has a key that is written without a panic. It is \<open>None\<close> otherwise; nothing is
  reached inside a value that implements Marshaler.
\<close>

fun isWrote :: "writes \<Rightarrow> bool" where
  "isWrote (Wrote b) = True"
| "isWrote (Panicked b err) = False"

datatype step = Deref | Index nat | Field nat | Key nat

fun reached :: "env \<Rightarrow> val \<Rightarrow> bool \<Rightarrow> step list \<Rightarrow> (val \<times> bool) option" where
  "reached E v q [] = Some (v, q)"
| "reached E (VInterfaceOrPtr (Some x)) q (Deref # path) = reached E x False path"
| "reached E (VArrayOrSlice t xs) q (Index n # path) =
    (if t \<noteq> byteSliceType \<and> n < length xs \<and> isWrote (arrayLoop E (take n xs) 0)
     then reached E (xs ! n) False path else None)"
| "reached E (VStruct fs) q (Field n # path) =
    (if n < length fs \<and> isWrote (structLoop E (take n fs) True)
        \<and> PkgPath (fst (fs ! n)) = []
        \<and> \<not> (fst (snd (fieldOptions E (fst (fs ! n)))) \<and> isEmptyValue (snd (fs ! n)))
        \<and> isWrote (string_enc (fst (fieldOptions E (fst (fs ! n)))))
     then reached E (snd (fs ! n)) (snd (snd (fieldOptions E (fst (fs ! n))))) path
     else None)"
| "reached E (VMap t k (Some es)) q (Key n # path) =
    (if k = KString \<and> n < length (sort (map fst es)) \<and> isWrote (mapLoop E es (take n (sort (map fst es))) 0)
        \<and> isWrote (string_enc (sort (map fst es) ! n))
     then reached E (MapIndex es (sort (map fst es) ! n)) False path
     else None)"
| "reached E v q (s # path) = None"

text \<open>
  Collaborators for the concrete examples: the letters and digits of ASCII, and a
  \<open>Compact\<close> that rejects the empty input and drops spaces.
\<close>

definition exampleEnv :: env where
  "exampleEnv =
    \<lparr> IsLetter = (\<lambda>c. (65 \<le> c \<and> c \<le> 90) \<or> (97 \<le> c \<and> c \<le> 122)),
      IsDigit = (\<lambda>c. 48 \<le> c \<and> c \<le> 57),
      Compact = (\<lambda>b. if b = [] then Inl ''unexpected end of JSON input''
                     else Inr (filter (\<lambda>c. c \<noteq> CHR 0x20) b)) \<rparr>"

section \<open>The string escaper\<close>

lemma stringLoop_end:
  "\<not> i < length s \<Longrightarrow>
   stringLoop s i start = Wrote ((if start < length s then drop start s else []) @ [CHR 0x22])"
  by (subst stringLoop.simps) simp

lemma stringLoop_safe:
  "i < length s \<Longrightarrow> (of_char (s ! i) :: nat) < 0x80 \<Longrightarrow> safeByte (s ! i) \<Longrightarrow>
   stringLoop s i start = stringLoop s (i + 1) start"
  by (subst stringLoop.simps) (simp add: RuneSelf_def safeByte_def Let_def)

lemma stringLoop_escape:
  "i < length s \<Longrightarrow> (of_char (s ! i) :: nat) < 0x80 \<Longrightarrow> \<not> safeByte (s ! i) \<Longrightarrow>
   stringLoop s i start =
     andThen (Wrote ((if start < i then substring s start i else []) @ escape (s ! i)))
       (stringLoop s (i + 1) (i + 1))"
  by (subst stringLoop.simps, unfold Let_def RuneSelf_def safeByte_def) (simp only: if_True if_False)

lemma stringLoop_invalid:
  "i < length s \<Longrightarrow> \<not> (of_char (s ! i) :: nat) < 0x80 \<Longrightarrow>
   DecodeRuneInString (drop i s) = (c, sz) \<Longrightarrow> c = RuneError \<and> sz = 1 \<Longrightarrow>
   stringLoop s i start = Panicked [] (InvalidUTF8Error s)"
  by (subst stringLoop.simps) (simp add: RuneSelf_def Let_def del: DecodeRuneInString.simps)

lemma stringLoop_multi:
  "i < length s \<Longrightarrow> \<not> (of_char (s ! i) :: nat) < 0x80 \<Longrightarrow>
   DecodeRuneInString (drop i s) = (c, sz) \<Longrightarrow> \<not> (c = RuneError \<and> sz = 1) \<Longrightarrow>
   stringLoop s i start = stringLoop s (i + sz) start"
  by (subst stringLoop.simps) (auto simp add: RuneSelf_def Let_def simp del: DecodeRuneInString.simps)

lemma jsonEscape_safe: "safeByte b \<Longrightarrow> jsonEscape b = [b]"
  by (auto simp: safeByte_def jsonEscape_def)

lemma jsonEscape_high: "0x80 \<le> (of_char b :: nat) \<Longrightarrow> jsonEscape b = [b]"
  by (auto simp: jsonEscape_def)

lemma and_15_mod: "(n::nat) AND 0xF = n mod 16"
proof -
  have "n AND mask 4 = n mod 2 ^ 4" by (simp only: flip: take_bit_eq_mask take_bit_eq_mod)
  then show ?thesis by (simp add: mask_eq_exp_minus_1)
qed

lemma escape_jsonEscape:
  "(of_char b :: nat) < 0x80 \<Longrightarrow> \<not> safeByte b \<Longrightarrow> escape b = jsonEscape b"
  by (auto simp: escape_def jsonEscape_def safeByte_def and_15_mod drop_bit_eq_div hex_def)

lemma Decode_ascii:
  "(of_char b :: nat) < 0x80 \<Longrightarrow> DecodeRuneInString (b # bs) = (of_char b, 1)"
  by simp

lemma concat_verbatim: "(\<forall>x\<in>set xs. f x = [x]) \<Longrightarrow> concat (map f xs) = xs"
  by (induction xs) auto

lemma concat_split:
  assumes "start \<le> i" "i \<le> length s"
    and "\<forall>j. start \<le> j \<and> j < i \<longrightarrow> f (s ! j) = [s ! j]"
  shows "concat (map f (drop start s)) = substring s start i @ concat (map f (drop i s))"
proof -
  have "drop (i - start) (drop start s) = drop i s"
    using assms(1) by simp
  then have d: "drop start s = substring s start i @ drop i s"
    unfolding substring_def using append_take_drop_id [of "i - start" "drop start s"] by simp
  have "\<forall>x\<in>set (substring s start i). f x = [x]"
  proof
    fix x assume "x \<in> set (substring s start i)"
    then obtain k where k: "k < length (substring s start i)" "x = substring s start i ! k"
      by (auto simp: in_set_conv_nth)
    then have "k < i - start" by (simp add: substring_def)
    with k assms have "x = s ! (start + k)" by (simp add: substring_def)
    with \<open>k < i - start\<close> assms(3) show "f x = [x]" by simp
  qed
  then have "concat (map f (substring s start i)) = substring s start i" by (rule concat_verbatim)
  with d show ?thesis by simp
qed

lemma Decode_multi_sz:
  assumes "0x80 \<le> (of_char b0 :: nat)"
    and "DecodeRuneInString (b0 # rest) = (c, sz)" "\<not> (c = RuneError \<and> sz = 1)"
  shows "(sz = 2 \<and> (\<exists>b1 r. rest = b1 # r \<and> isCont b1))
       \<or> (sz = 3 \<and> (\<exists>b1 b2 r. rest = b1 # b2 # r \<and> isCont b1 \<and> isCont b2))
       \<or> (sz = 4 \<and> (\<exists>b1 b2 b3 r. rest = b1 # b2 # b3 # r \<and> isCont b1 \<and> isCont b2 \<and> isCont b3))"
  using assms by (auto split: list.splits if_splits)

lemma Decode_multi:
  assumes "0x80 \<le> (of_char b0 :: nat)"
    and "DecodeRuneInString (b0 # rest) = (c, sz)" "\<not> (c = RuneError \<and> sz = 1)"
    and "j < sz"
  shows "0x80 \<le> (of_char ((b0 # rest) ! j) :: nat)"
proof -
  consider (two) b1 r where "sz = 2" "rest = b1 # r" "isCont b1"
    | (three) b1 b2 r where "sz = 3" "rest = b1 # b2 # r" "isCont b1" "isCont b2"
    | (four) b1 b2 b3 r where "sz = 4" "rest = b1 # b2 # b3 # r" "isCont b1" "isCont b2" "isCont b3"
    using Decode_multi_sz [OF assms(1-3)] by blast
  then show ?thesis
  proof cases
    case two
    with \<open>j < sz\<close> have "j = 0 \<or> j = 1" by arith
    with two assms(1) show ?thesis by (auto simp: isCont_def)
  next
    case three
    with \<open>j < sz\<close> have "j = 0 \<or> j = 1 \<or> j = 2" by arith
    with three assms(1) show ?thesis by (auto simp: isCont_def)
  next
    case four
    with \<open>j < sz\<close> have "j = 0 \<or> j = 1 \<or> j = 2 \<or> j = 3" by arith
    with four assms(1) show ?thesis by (auto simp: isCont_def)
  qed
qed

lemma validUTF8_ascii:
  "i < length s \<Longrightarrow> (of_char (s ! i) :: nat) < 0x80 \<Longrightarrow>
     validUTF8 (drop i s) = validUTF8 (drop (Suc i) s)"
  by (simp add: RuneError_def flip: Cons_nth_drop_Suc)


lemma validUTF8_step:
  "t \<noteq> [] \<Longrightarrow> DecodeRuneInString t = (c, sz) \<Longrightarrow>
   validUTF8 t = (\<not> (c = RuneError \<and> sz = 1) \<and> validUTF8 (drop sz t))"
  by (cases t) (simp_all del: DecodeRuneInString.simps)

lemma stringLoop_spec:
  "start \<le> i \<Longrightarrow> i \<le> length s \<Longrightarrow>
   (\<forall>j. start \<le> j \<and> j < i \<longrightarrow> jsonEscape (s ! j) = [s ! j]) \<Longrightarrow>
   (validUTF8 (drop i s) \<longrightarrow>
      stringLoop s i start = Wrote (concat (map jsonEscape (drop start s)) @ [CHR 0x22]))
   \<and> (\<not> validUTF8 (drop i s) \<longrightarrow>
      (\<exists>p. stringLoop s i start = Panicked p (InvalidUTF8Error s)))"
proof (induction s i start rule: stringLoop.induct)
  case (1 s i start)
  note inv = "1.prems"
  show ?case
  proof (cases "i < length s")
    case False
    with inv have il: "i = length s" by simp
    have "concat (map jsonEscape (drop start s))
            = substring s start i @ concat (map jsonEscape (drop i s))"
      using inv by (intro concat_split) auto
    with il have "concat (map jsonEscape (drop start s)) = drop start s"
      by (simp add: substring_def)
    with il show ?thesis by (simp add: stringLoop_end)
  next
    case True
    note lt = True
    define b where "b = s ! i"
    show ?thesis
    proof (cases "(of_char b :: nat) < 0x80")
      case True
      note ascii = True
      have v: "validUTF8 (drop i s) = validUTF8 (drop (Suc i) s)"
        using lt ascii by (simp add: validUTF8_ascii b_def)
      show ?thesis
      proof (cases "safeByte b")
        case True
        have step: "stringLoop s i start = stringLoop s (i + 1) start"
          by (rule stringLoop_safe) (use lt ascii True in \<open>simp_all add: b_def\<close>)
        have inv': "\<forall>j. start \<le> j \<and> j < i + 1 \<longrightarrow> jsonEscape (s ! j) = [s ! j]"
          using inv(3) True by (auto simp: less_Suc_eq b_def jsonEscape_safe)
        have c1: "of_char b < RuneSelf" using ascii by (simp add: RuneSelf_def)
        have c2: "32 \<le> (of_char b :: nat) \<and> b \<noteq> CHR 0x5C \<and> b \<noteq> CHR 0x22
                    \<and> b \<noteq> CHR ''<'' \<and> b \<noteq> CHR ''>''"
          using True by (simp add: safeByte_def)
        have le: "start \<le> i + 1" "i + 1 \<le> length s" using inv(1) lt by simp_all
        from "1.IH"(1) [OF lt b_def c1 c2 le inv'] step v show ?thesis by simp
      next
        case False
        have step: "stringLoop s i start =
            andThen (Wrote ((if start < i then substring s start i else []) @ escape b))
              (stringLoop s (i + 1) (i + 1))"
          unfolding b_def
          by (rule stringLoop_escape) (use lt ascii False in \<open>simp_all add: b_def\<close>)
        have pend: "(if start < i then substring s start i else []) = substring s start i"
          using inv(1) by (auto simp: substring_def)
        have c1: "of_char b < RuneSelf" using ascii by (simp add: RuneSelf_def)
        have c2: "\<not> (32 \<le> (of_char b :: nat) \<and> b \<noteq> CHR 0x5C \<and> b \<noteq> CHR 0x22
                    \<and> b \<noteq> CHR ''<'' \<and> b \<noteq> CHR ''>'')"
          using False by (simp add: safeByte_def)
        have le: "i + 1 \<le> i + 1" "i + 1 \<le> length s" using lt by simp_all
        have inv': "\<forall>j. i + 1 \<le> j \<and> j < i + 1 \<longrightarrow> jsonEscape (s ! j) = [s ! j]" by auto
        note ih = "1.IH"(2) [OF lt b_def c1 c2 le inv']
        have "concat (map jsonEscape (drop start s))
                = substring s start i @ concat (map jsonEscape (drop i s))"
          using inv lt by (intro concat_split) auto
        also have "drop i s = b # drop (i + 1) s"
          using lt by (simp add: b_def Cons_nth_drop_Suc)
        finally have out: "concat (map jsonEscape (drop start s))
                = substring s start i @ escape b @ concat (map jsonEscape (drop (i + 1) s))"
          using escape_jsonEscape [OF ascii False] by simp
        show ?thesis
        proof (cases "validUTF8 (drop (i + 1) s)")
          case True
          with ih step pend out v show ?thesis by simp
        next
          case False
          with ih obtain p where "stringLoop s (i + 1) (i + 1) = Panicked p (InvalidUTF8Error s)"
            by blast
          with step v False show ?thesis by simp
        qed
      qed
    next
      case False
      note high = False
      obtain c sz where d: "DecodeRuneInString (drop i s) = (c, sz)"
        by (cases "DecodeRuneInString (drop i s)")
      have ds: "drop i s = b # drop (Suc i) s"
        using lt by (simp add: b_def Cons_nth_drop_Suc)
      show ?thesis
      proof (cases "c = RuneError \<and> sz = 1")
        case True
        have "stringLoop s i start = Panicked [] (InvalidUTF8Error s)"
          by (rule stringLoop_invalid [OF _ _ d True]) (use lt high in \<open>simp_all add: b_def\<close>)
        moreover have "\<not> validUTF8 (drop i s)"
          using validUTF8_step [OF _ d] lt True by simp
        ultimately show ?thesis by simp
      next
        case False
        have step: "stringLoop s i start = stringLoop s (i + sz) start"
          by (rule stringLoop_multi [OF _ _ d False]) (use lt high in \<open>simp_all add: b_def\<close>)
        have szle: "sz \<le> length (drop i s)"
          using DecodeRuneInString_size_le [of "drop i s"] d by simp
        have v: "validUTF8 (drop i s) = validUTF8 (drop (i + sz) s)"
          using validUTF8_step [OF _ d] lt False by (simp add: add.commute)
        have hi: "0x80 \<le> (of_char ((drop i s) ! k) :: nat)" if "k < sz" for k
          using Decode_multi [of b "drop (Suc i) s" c sz k] high d False that
          by (simp only: flip: ds) simp
        have inv': "\<forall>j. start \<le> j \<and> j < i + sz \<longrightarrow> jsonEscape (s ! j) = [s ! j]"
        proof (intro allI impI)
          fix j assume j: "start \<le> j \<and> j < i + sz"
          show "jsonEscape (s ! j) = [s ! j]"
          proof (cases "j < i")
            case True
            with j inv(3) show ?thesis by simp
          next
            case False
            then have "j - i < sz" using j by arith
            from hi [OF this] have "0x80 \<le> (of_char (s ! j) :: nat)"
              using False lt szle j by simp
            then show ?thesis by (rule jsonEscape_high)
          qed
        qed
        have c1: "\<not> of_char b < RuneSelf" using high by (simp add: RuneSelf_def)
        have le: "start \<le> i + sz" "i + sz \<le> length s" using inv(1) szle lt by simp_all
        from "1.IH"(3) [OF lt b_def c1 d [symmetric] False le inv'] step v
        show ?thesis by simp
      qed
    qed
  qed
qed

lemma string_enc_valid:
  "validUTF8 s \<Longrightarrow> string_enc s = Wrote (CHR 0x22 # concat (map jsonEscape s) @ [CHR 0x22])"
  using stringLoop_spec [of 0 0 s] by (simp add: string_enc_def)

lemma string_enc_invalid:
  "\<not> validUTF8 s \<Longrightarrow> \<exists>p. string_enc s = Panicked p (InvalidUTF8Error s)"
  using stringLoop_spec [of 0 0 s] by (auto simp add: string_enc_def)

lemma validUTF8_all_ascii:
  "(\<forall>c\<in>set s. (of_char c :: nat) < 0x80) \<Longrightarrow> validUTF8 s"
  by (induction s) (auto simp: RuneError_def)

lemma string_enc_plain:
  assumes "\<forall>c\<in>set s. safeByte c \<and> (of_char c :: nat) < 0x80"
  shows "string_enc s = Wrote (CHR 0x22 # s @ [CHR 0x22])"
proof -
  have "validUTF8 s" using assms by (intro validUTF8_all_ascii) simp
  moreover have "concat (map jsonEscape s) = s"
    using assms by (intro concat_verbatim) (simp add: jsonEscape_safe)
  ultimately show ?thesis by (simp add: string_enc_valid)
qed

text \<open>
  C7. For a string that decodes as UTF-8, the string literal the encoder writes is a
  double quote, the escaping of each byte in turn, and a double quote, where \<open><\<close> and
  \<open>>\<close> become \<open>\u003c\<close> and \<open>\u003e\<close>; newline, carriage return, backslash and double
  quote become a backslash followed by \<open>n\<close>, by \<open>r\<close>, by a backslash and by a double quote;
  every other byte below 0x20 becomes \<open>\u00\<close> and its two hexadecimal digits; \<open>&\<close>
  stays as it is, and every other byte is copied.
\<close>

theorem string_escaping:
  "(validUTF8 s \<longrightarrow>
      string_enc s = Wrote (CHR 0x22 # concat (map jsonEscape s) @ [CHR 0x22]))
   \<and> jsonEscape (CHR ''<'') = CHR 0x5C # ''u003c''
   \<and> jsonEscape (CHR ''>'') = CHR 0x5C # ''u003e''
   \<and> jsonEscape (CHR ''&'') = ''&''
   \<and> jsonEscape (CHR 0x0A) = CHR 0x5C # ''n''
   \<and> jsonEscape (CHR 0x0D) = CHR 0x5C # ''r''
   \<and> jsonEscape (CHR 0x5C) = [CHR 0x5C, CHR 0x5C]
   \<and> jsonEscape (CHR 0x22) = [CHR 0x5C, CHR 0x22]
   \<and> ((of_char b :: nat) < 0x20 \<and> b \<noteq> CHR 0x0A \<and> b \<noteq> CHR 0x0D \<longrightarrow>
        jsonEscape b = CHR 0x5C # ''u00'' @ [hex ! (of_char b div 16), hex ! (of_char b mod 16)])
   \<and> (0x20 \<le> (of_char b :: nat) \<and> b \<noteq> CHR 0x5C \<and> b \<noteq> CHR 0x22
        \<and> b \<noteq> CHR ''<'' \<and> b \<noteq> CHR ''>'' \<longrightarrow> jsonEscape b = [b])"
proof -
  have "validUTF8 s \<longrightarrow>
      string_enc s = Wrote (CHR 0x22 # concat (map jsonEscape s) @ [CHR 0x22])"
    by (simp add: string_enc_valid)
  moreover have "(of_char b :: nat) < 0x20 \<and> b \<noteq> CHR 0x0A \<and> b \<noteq> CHR 0x0D \<longrightarrow>
        jsonEscape b = CHR 0x5C # ''u00'' @ [hex ! (of_char b div 16), hex ! (of_char b mod 16)]"
    by (auto simp: jsonEscape_def)
  moreover have "0x20 \<le> (of_char b :: nat) \<and> b \<noteq> CHR 0x5C \<and> b \<noteq> CHR 0x22
        \<and> b \<noteq> CHR ''<'' \<and> b \<noteq> CHR ''>'' \<longrightarrow> jsonEscape b = [b]"
    by (auto simp: jsonEscape_def)
  ultimately show ?thesis by (simp add: jsonEscape_def)
qed

theorem string_escaping_witness:
  "validUTF8 ''a<b>&'' \<and>
   string_enc ''a<b>&'' = Wrote (CHR 0x22 # ''a'' @ CHR 0x5C # ''u003cb'' @ CHR 0x5C # ''u003e&'' @ [CHR 0x22])
   \<and> (of_char (CHR 0x1F) :: nat) < 0x20
   \<and> jsonEscape (CHR 0x1F) = CHR 0x5C # ''u001f''
   \<and> 0x20 \<le> (of_char (CHR ''a'') :: nat) \<and> jsonEscape (CHR ''a'') = ''a''"
proof -
  have v: "validUTF8 ''a<b>&''" by (simp add: RuneError_def)
  have "string_enc ''a<b>&'' = Wrote (CHR 0x22 # concat (map jsonEscape ''a<b>&'') @ [CHR 0x22])"
    using string_escaping [of "''a<b>&''" "CHR 0x1F"] v by blast
  moreover have "jsonEscape (CHR 0x1F) = CHR 0x5C # ''u00'' @ [hex ! (of_char (CHR 0x1F) div 16), hex ! (of_char (CHR 0x1F) mod 16)]"
    using string_escaping [of "''a''" "CHR 0x1F"] by simp
  moreover have "jsonEscape (CHR ''a'') = ''a''"
    using string_escaping [of "''a''" "CHR ''a''"] by simp
  ultimately show ?thesis using v by (simp add: jsonEscape_def hex_def)
qed

section \<open>The custom serialization hook\<close>


section \<open>The invalid value\<close>

text \<open>
  C10. Encoding a value without runtime type information (the zero reflect.Value, as
  for an untyped nil at the top level) succeeds and yields exactly \<open>null\<close>.
\<close>

theorem marshal_invalid_is_null:
  "Marshal E VInvalid = (Some ''null'', None)"
  by simp

section \<open>Decimal text and struct fields\<close>


lemma digits_small: "n < 10 \<Longrightarrow> digits n = [hex ! n]"
  by (subst digits.simps) simp





lemma structLoop_emit:
  "PkgPath fld = [] \<Longrightarrow> fieldOptions E fld = (tag, omitEmpty, quoted) \<Longrightarrow>
   \<not> (omitEmpty \<and> isEmptyValue v) \<Longrightarrow>
   structLoop E ((fld, v) # rest) first =
     andThen (Wrote (if first then [] else '',''))
       (andThen (string_enc tag)
         (andThen (Wrote '':'')
           (andThen (reflectValueQuoted E v quoted) (structLoop E rest False))))"
  by auto

lemma structLoop_skip:
  "PkgPath fld \<noteq> [] \<or> (fieldOptions E fld = (tag, True, quoted) \<and> isEmptyValue v) \<Longrightarrow>
   structLoop E ((fld, v) # rest) first = structLoop E rest first"
  by auto

section \<open>The string option\<close>





section \<open>Byte slices\<close>

text \<open>
  C5, as amended. A value whose type is exactly the byte slice type \<open>[]uint8\<close> is written
  as a double quote, the base64 text of its bytes, and a double quote, whatever the
  quoting flag; the bytes \<open>h\<close>, \<open>i\<close> give \<open>"aGk="\<close>.
\<close>

theorem byte_slice_base64:
  "reflectValueQuoted E (VArrayOrSlice byteSliceType xs) quoted
     = Wrote (CHR 0x22 # base64Encode (map byteOf xs) @ [CHR 0x22])
   \<and> Marshal E (VArrayOrSlice byteSliceType [VUint 104, VUint 105]) = (Some ''\"aGk=\"'', None)"
  by (simp add: byteOf_def encodeStd_def)

text \<open>
  The claim as stated fails for a sequence of bytes of another type: the array
  \<open>[2]uint8\<close> holding \<open>h\<close>, \<open>i\<close> is written as the JSON array \<open>[104,105]\<close>.
\<close>

theorem byte_array_not_base64:
  "Marshal exampleEnv (VArrayOrSlice ''[2]uint8'' [VUint 104, VUint 105])
     = (Some ''[104,105]'', None)
   \<and> Marshal exampleEnv (VArrayOrSlice ''[2]uint8'' [VUint 104, VUint 105])
     \<noteq> (Some ''\"aGk=\"'', None)"
proof -
  have d: "digits 104 = ''104''" "digits 105 = ''105''"
    by (simp_all add: digits.simps [of 104] digits.simps [of 105] digits.simps [of 10]
        digits_small hex_def)
  show ?thesis
    by (simp add: byteSliceType_def writeString_def Uitoa64_def d)
qed

section \<open>Struct field tags\<close>








section \<open>The omitempty option\<close>

lemma structLoop_drop:
  "PkgPath fld \<noteq> [] \<or> (fieldOptions E fld = (tag, True, quoted) \<and> isEmptyValue v) \<Longrightarrow>
   structLoop E (pre @ (fld, v) # post) first = structLoop E (pre @ post) first"
proof (induction pre arbitrary: first)
  case Nil
  then show ?case by (simp add: structLoop_skip)
next
  case (Cons a pre)
  obtain g y where a: "a = (g, y)" by (cases a)
  obtain tg om qu where fo: "fieldOptions E g = (tg, om, qu)" by (cases "fieldOptions E g")
  show ?case using Cons a fo by simp
qed

text \<open>
  C4. A value is empty when it is the boolean false, a zero integer or float, a string,
  array, slice or map of length zero (the nil map included), or a nil interface or
  pointer; a struct is never empty. An exported struct field with the omitempty option
  is left out when its value is empty: the struct encodes as the struct without that
  field; when its value is not empty the field is written, key, colon and value. Two
  integer fields with omitempty, both 0, give \<open>{}\<close>.
\<close>

theorem omitempty_suppresses_empty:
  "isEmptyValue (VBool b) = (\<not> b)
   \<and> isEmptyValue (VInt i) = (i = 0)
   \<and> isEmptyValue (VUint u) = (u = 0)
   \<and> isEmptyValue (VFloat fl) = isZero fl
   \<and> isEmptyValue (VString s) = (length s = 0)
   \<and> isEmptyValue (VArrayOrSlice t xs) = (length xs = 0)
   \<and> isEmptyValue (VMap t k m) = (case m of None \<Rightarrow> True | Some es \<Rightarrow> length es = 0)
   \<and> isEmptyValue (VInterfaceOrPtr p) = (p = None)
   \<and> isEmptyValue (VStruct fs) = False
   \<and> (PkgPath fld = [] \<and> fieldOptions E fld = (tag, True, quoted) \<longrightarrow>
        (isEmptyValue v \<longrightarrow>
           Marshal E (VStruct (pre @ (fld, v) # post)) = Marshal E (VStruct (pre @ post)))
        \<and> (\<not> isEmptyValue v \<longrightarrow>
           structLoop E ((fld, v) # post) first =
             andThen (Wrote (if first then [] else '',''))
               (andThen (string_enc tag)
                 (andThen (Wrote '':'')
                   (andThen (reflectValueQuoted E v quoted) (structLoop E post False))))))
   \<and> Marshal E (VStruct
         [(\<lparr>Name = ''A'', PkgPath = [], Tag = '',omitempty''\<rparr>, VInt 0),
          (\<lparr>Name = ''B'', PkgPath = [], Tag = '',omitempty''\<rparr>, VInt 0)])
       = (Some ''{}'', None)"
proof -
  have m: "isEmptyValue (VMap t k m) = (case m of None \<Rightarrow> True | Some es \<Rightarrow> length es = 0)"
    by (cases m) simp_all
  have s: "PkgPath fld = [] \<and> fieldOptions E fld = (tag, True, quoted) \<longrightarrow>
        (isEmptyValue v \<longrightarrow>
           Marshal E (VStruct (pre @ (fld, v) # post)) = Marshal E (VStruct (pre @ post)))
        \<and> (\<not> isEmptyValue v \<longrightarrow>
           structLoop E ((fld, v) # post) first =
             andThen (Wrote (if first then [] else '',''))
               (andThen (string_enc tag)
                 (andThen (Wrote '':'')
                   (andThen (reflectValueQuoted E v quoted) (structLoop E post False)))))"
    using structLoop_drop [of fld E tag quoted v pre post True]
      structLoop_emit [of fld E tag True quoted v post first]
    by simp
  have ex: "Marshal E (VStruct
         [(\<lparr>Name = ''A'', PkgPath = [], Tag = '',omitempty''\<rparr>, VInt 0),
          (\<lparr>Name = ''B'', PkgPath = [], Tag = '',omitempty''\<rparr>, VInt 0)])
       = (Some ''{}'', None)"
    by (simp add: fieldOptions_def parseTag_def Contains_def isValidTag_def)
  show ?thesis using m s ex by simp
qed

theorem omitempty_suppresses_empty_witness:
  "fieldOptions exampleEnv \<lparr>Name = ''F'', PkgPath = [], Tag = ''myName,omitempty''\<rparr>
     = (''myName'', True, False)
   \<and> Marshal exampleEnv
        (VStruct [(\<lparr>Name = ''F'', PkgPath = [], Tag = ''myName,omitempty''\<rparr>, VInt 0)])
     = (Some ''{}'', None)
   \<and> Marshal exampleEnv
        (VStruct [(\<lparr>Name = ''F'', PkgPath = [], Tag = ''myName,omitempty''\<rparr>, VInt 5)])
     = (Some ''{\"myName\":5}'', None)
   \<and> Marshal exampleEnv
        (VStruct [(\<lparr>Name = ''F'', PkgPath = [], Tag = ''myName,omitempty''\<rparr>, VStruct [])])
     = (Some ''{\"myName\":{}}'', None)"
proof -
  let ?fld = "\<lparr>Name = ''F'', PkgPath = [], Tag = ''myName,omitempty''\<rparr>"
  have fo: "fieldOptions exampleEnv ?fld = (''myName'', True, False)"
    by (simp add: fieldOptions_def parseTag_def Contains_def isValidTag_def exampleEnv_def)
  have p: "PkgPath ?fld = []" by simp
  have k: "string_enc ''myName'' = Wrote ''\"myName\"''"
    by (simp add: string_enc_plain safeByte_def)
  have "Marshal exampleEnv (VStruct ([] @ (?fld, VInt 0) # []))
          = Marshal exampleEnv (VStruct ([] @ []))"
    using omitempty_suppresses_empty [of _ _ _ _ _ _ _ _ _ _ _ ?fld exampleEnv "''myName''" False "VInt 0" "[]" "[]"]
      fo p by simp
  then have z: "Marshal exampleEnv (VStruct [(?fld, VInt 0)]) = (Some ''{}'', None)" by simp
  have "structLoop exampleEnv ((?fld, VInt 5) # []) True =
      andThen (Wrote (if True then [] else '',''))
        (andThen (string_enc ''myName'')
          (andThen (Wrote '':'')
            (andThen (reflectValueQuoted exampleEnv (VInt 5) False) (structLoop exampleEnv [] False))))"
    using omitempty_suppresses_empty [of _ _ _ _ _ _ _ _ _ _ _ ?fld exampleEnv "''myName''" False "VInt 5" _ "[]" True]
      fo p by simp
  then have f: "Marshal exampleEnv (VStruct [(?fld, VInt 5)]) = (Some ''{\"myName\":5}'', None)"
    by (simp add: k writeString_def Itoa64_def Uitoa64_def digits_small hex_def
        del: structLoop.simps(2))
  have "structLoop exampleEnv ((?fld, VStruct []) # []) True =
      andThen (Wrote (if True then [] else '',''))
        (andThen (string_enc ''myName'')
          (andThen (Wrote '':'')
            (andThen (reflectValueQuoted exampleEnv (VStruct []) False) (structLoop exampleEnv [] False))))"
    using omitempty_suppresses_empty [of _ _ _ _ _ _ _ _ _ _ _ ?fld exampleEnv "''myName''" False "VStruct []" _ "[]" True]
      fo p by simp
  then have st: "Marshal exampleEnv (VStruct [(?fld, VStruct [])]) = (Some ''{\"myName\":{}}'', None)"
    by (simp add: k del: structLoop.simps(2))
  show ?thesis using fo z f st by simp
qed

section \<open>Map keys\<close>

lemma joinMembers_Cons:
  "joinMembers ((k, v) # ms) = k @ '':'' @ v @ (if ms = [] then [] else '','' @ joinMembers ms)"
  by (cases ms) auto

lemma mapLoop_cong:
  "(\<And>k. MapIndex es' k = MapIndex es k) \<Longrightarrow> mapLoop E es' ks i = mapLoop E es ks i"
  by (induction ks arbitrary: i) simp_all

lemma mapLoop_members:
  "(\<forall>k\<in>set ks. string_enc k = Wrote (kq k) \<and> reflectValue E (MapIndex es k) = Wrote (vq k)) \<Longrightarrow>
   mapLoop E es ks i =
     Wrote ((if 0 < i \<and> ks \<noteq> [] then '','' else []) @ joinMembers (map (\<lambda>k. (kq k, vq k)) ks))"
proof (induction ks arbitrary: i)
  case Nil
  then show ?case by simp
next
  case (Cons k ks)
  then have "mapLoop E es ks (i + 1) =
     Wrote ((if 0 < i + 1 \<and> ks \<noteq> [] then '','' else []) @ joinMembers (map (\<lambda>k. (kq k, vq k)) ks))"
    by (intro Cons.IH) simp
  with Cons.prems show ?case by (simp add: joinMembers_Cons)
qed

lemma map_storage_order:
  assumes "distinct (map fst es)" "distinct (map fst es')" "set es' = set es"
  shows "reflectValueQuoted E (VMap t k (Some es')) q = reflectValueQuoted E (VMap t k (Some es)) q"
proof -
  have "set (map fst es') = set (map fst es)" using assms(3) by simp
  then have "sort (map fst es') = sort (map fst es)"
    using assms(1,2) by (intro sorted_distinct_set_unique) simp_all
  moreover have "map_of es' = map_of es"
    using map_of_inject_set [OF assms(2,1)] assms(3) by simp
  then have "mapLoop E es' ks i = mapLoop E es ks i" for ks i
    by (intro mapLoop_cong) (simp add: MapIndex_def)
  ultimately show ?thesis by simp
qed

text \<open>
  C1. A map with string keys is encoded with its keys in ascending lexicographic order,
  whatever order the map's storage yields them in: two storage orders of the same
  entries give the same result, and when every key and value encodes, the result is
  \<open>{\<close>, the comma-separated \<open>key:value\<close> members for the keys in sorted order, and
  \<open>}\<close>. The map holding b:1 and a:2 gives \<open>{"a":2,"b":1}\<close>.
\<close>

theorem map_keys_sorted:
  "(distinct (map fst es) \<and> distinct (map fst es') \<and> set es' = set es \<longrightarrow>
      Marshal E (VMap t KString (Some es')) = Marshal E (VMap t KString (Some es)))
   \<and> ((\<forall>k\<in>set (map fst es).
          string_enc k = Wrote (kq k) \<and> reflectValue E (MapIndex es k) = Wrote (vq k)) \<longrightarrow>
        Marshal E (VMap t KString (Some es))
          = (Some (''{'' @ joinMembers (map (\<lambda>k. (kq k, vq k)) (sort (map fst es))) @ ''}''),
             None))
   \<and> sorted (sort (map fst es))
   \<and> set (sort (map fst es)) = fst ` set es
   \<and> Marshal E (VMap ''map[string]int'' KString (Some [(''b'', VInt 1), (''a'', VInt 2)]))
       = (Some ''{\"a\":2,\"b\":1}'', None)"
proof -
  have a: "distinct (map fst es) \<and> distinct (map fst es') \<and> set es' = set es \<longrightarrow>
      Marshal E (VMap t KString (Some es')) = Marshal E (VMap t KString (Some es))"
    using map_storage_order [of es es' E t KString False] by (simp del: reflectValueQuoted.simps)
  have b: "(\<forall>k\<in>set (map fst es).
          string_enc k = Wrote (kq k) \<and> reflectValue E (MapIndex es k) = Wrote (vq k)) \<longrightarrow>
        Marshal E (VMap t KString (Some es))
          = (Some (''{'' @ joinMembers (map (\<lambda>k. (kq k, vq k)) (sort (map fst es))) @ ''}''),
             None)"
  proof
    assume h: "\<forall>k\<in>set (map fst es).
          string_enc k = Wrote (kq k) \<and> reflectValue E (MapIndex es k) = Wrote (vq k)"
    have "mapLoop E es (sort (map fst es)) 0 =
       Wrote ((if (0::nat) < 0 \<and> sort (map fst es) \<noteq> [] then '','' else [])
              @ joinMembers (map (\<lambda>k. (kq k, vq k)) (sort (map fst es))))"
      using h by (intro mapLoop_members) simp
    then show "Marshal E (VMap t KString (Some es))
          = (Some (''{'' @ joinMembers (map (\<lambda>k. (kq k, vq k)) (sort (map fst es))) @ ''}''),
             None)"
      by simp
  qed
  have c: "Marshal E (VMap ''map[string]int'' KString (Some [(''b'', VInt 1), (''a'', VInt 2)]))
       = (Some ''{\"a\":2,\"b\":1}'', None)"
    by (simp add: string_enc_plain safeByte_def Itoa64_def Uitoa64_def digits_small
        MapIndex_def writeString_def hex_def)
  show ?thesis using a b c by simp
qed

theorem map_keys_sorted_witness:
  "Marshal exampleEnv (VMap ''map[string]int'' KString (Some [(''a'', VInt 2), (''b'', VInt 1)]))
     = Marshal exampleEnv (VMap ''map[string]int'' KString (Some [(''b'', VInt 1), (''a'', VInt 2)]))
   \<and> sort (map fst [(''b'', VInt 1), (''a'', VInt 2)]) = [''a'', ''b'']
   \<and> Marshal exampleEnv (VMap ''map[string]int'' KString (Some [(''b'', VInt 1), (''a'', VInt 2)]))
     = (Some ''{\"a\":2,\"b\":1}'', None)"
proof -
  let ?es = "[(''b'', VInt 1), (''a'', VInt 2)]"
  let ?es' = "[(''a'', VInt 2), (''b'', VInt 1)]"
  let ?kq = "\<lambda>k. CHR 0x22 # k @ [CHR 0x22]"
  let ?vq = "\<lambda>k. if k = ''a'' then ''2'' else ''1''"
  note m = map_keys_sorted [of ?es ?es' exampleEnv "''map[string]int''" ?kq ?vq]
  have d: "distinct (map fst ?es) \<and> distinct (map fst ?es') \<and> set ?es' = set ?es" by auto
  have s: "sort (map fst ?es) = [''a'', ''b'']" by simp
  have h: "\<forall>k\<in>set (map fst ?es).
          string_enc k = Wrote (?kq k) \<and> reflectValue exampleEnv (MapIndex ?es k) = Wrote (?vq k)"
    by (simp add: string_enc_plain safeByte_def Itoa64_def Uitoa64_def digits_small
        MapIndex_def writeString_def hex_def)
  have 1: "Marshal exampleEnv (VMap ''map[string]int'' KString (Some ?es'))
     = Marshal exampleEnv (VMap ''map[string]int'' KString (Some ?es))"
    using m d by blast
  have "Marshal exampleEnv (VMap ''map[string]int'' KString (Some ?es))
     = (Some (''{'' @ joinMembers (map (\<lambda>k. (?kq k, ?vq k)) (sort (map fst ?es))) @ ''}''), None)"
    using m h by blast
  then have 2: "Marshal exampleEnv (VMap ''map[string]int'' KString (Some ?es))
     = (Some ''{\"a\":2,\"b\":1}'', None)"
    by (simp only: s) simp
  show ?thesis using 1 2 s by simp
qed

section \<open>The first error aborts the encoding\<close>

lemma andThen_Wrote_iff:
  "andThen x y = Wrote b \<longleftrightarrow> (\<exists>a c. x = Wrote a \<and> y = Wrote c \<and> b = a @ c)"
  by (cases x; cases y) auto

lemma isWrote_andThen [simp]: "isWrote (andThen x y) = (isWrote x \<and> isWrote y)"
  by (cases x; cases y) auto

lemma isWrote_iff: "isWrote x \<longleftrightarrow> (\<exists>b. x = Wrote b)"
  by (cases x) auto

lemma andThen_panic_right:
  "isWrote x \<Longrightarrow> y = Panicked p err \<Longrightarrow> \<exists>p'. andThen x y = Panicked p' err"
  by (cases x) auto

lemma andThen_panic_left:
  "x = Panicked p err \<Longrightarrow> andThen x y = Panicked p err"
  by simp

lemma arrayLoop_panic:
  "isWrote (arrayLoop E pre i) \<Longrightarrow> reflectValue E x = Panicked p err \<Longrightarrow>
   \<exists>p'. arrayLoop E (pre @ x # post) i = Panicked p' err"
proof (induction pre arbitrary: i)
  case Nil
  then show ?case by (auto intro!: andThen_panic_right)
next
  case (Cons a pre)
  from Cons.prems(1) have w: "isWrote (reflectValue E a)" "isWrote (arrayLoop E pre (i + 1))"
    by simp_all
  from Cons.IH [OF w(2) Cons.prems(2)] obtain p' where
    "arrayLoop E (pre @ x # post) (i + 1) = Panicked p' err" by blast
  with w(1) show ?case
    by (auto simp: isWrote_iff simp del: reflectValue.simps)
qed

lemma mapLoop_panic_value:
  "isWrote (mapLoop E es pre i) \<Longrightarrow> isWrote (string_enc k) \<Longrightarrow>
   reflectValue E (MapIndex es k) = Panicked p err \<Longrightarrow>
   \<exists>p'. mapLoop E es (pre @ k # post) i = Panicked p' err"
proof (induction pre arbitrary: i)
  case Nil
  then show ?case by (auto simp: isWrote_iff simp del: reflectValue.simps)
next
  case (Cons a pre)
  from Cons.prems(1) have w: "isWrote (string_enc a)" "isWrote (reflectValue E (MapIndex es a))"
      "isWrote (mapLoop E es pre (i + 1))"
    by simp_all
  from Cons.IH [OF w(3) Cons.prems(2,3)] obtain p' where
    "mapLoop E es (pre @ k # post) (i + 1) = Panicked p' err" by blast
  with w(1,2) show ?case
    by (auto simp: isWrote_iff simp del: reflectValue.simps)
qed

lemma mapLoop_panic_key:
  "isWrote (mapLoop E es pre i) \<Longrightarrow> string_enc k = Panicked p err \<Longrightarrow>
   \<exists>p'. mapLoop E es (pre @ k # post) i = Panicked p' err"
proof (induction pre arbitrary: i)
  case Nil
  then show ?case by (auto simp: isWrote_iff simp del: reflectValue.simps)
next
  case (Cons a pre)
  from Cons.prems(1) have w: "isWrote (string_enc a)" "isWrote (reflectValue E (MapIndex es a))"
      "isWrote (mapLoop E es pre (i + 1))"
    by simp_all
  from Cons.IH [OF w(3) Cons.prems(2)] obtain p' where
    "mapLoop E es (pre @ k # post) (i + 1) = Panicked p' err" by blast
  with w(1,2) show ?case
    by (auto simp: isWrote_iff simp del: reflectValue.simps)
qed

lemma structLoop_panic:
  "isWrote (structLoop E pre first) \<Longrightarrow> PkgPath f = [] \<Longrightarrow>
   fieldOptions E f = (tag, om, qu) \<Longrightarrow> \<not> (om \<and> isEmptyValue x) \<Longrightarrow>
   isWrote (string_enc tag) \<Longrightarrow> reflectValueQuoted E x qu = Panicked p err \<Longrightarrow>
   \<exists>p'. structLoop E (pre @ (f, x) # post) first = Panicked p' err"
proof (induction pre arbitrary: first)
  case Nil
  then show ?case by (auto simp: isWrote_iff)
next
  case (Cons a pre)
  obtain g y where a: "a = (g, y)" by (cases a)
  obtain tg og qg where fo: "fieldOptions E g = (tg, og, qg)" by (cases "fieldOptions E g")
  show ?case
  proof (cases "PkgPath g \<noteq> [] \<or> (og \<and> isEmptyValue y)")
    case True
    then have "structLoop E (a # pre) first = structLoop E pre first"
      and "structLoop E ((a # pre) @ (f, x) # post) first = structLoop E (pre @ (f, x) # post) first"
      using a fo by auto
    with Cons show ?thesis by simp
  next
    case False
    with Cons.prems(1) a fo have w: "isWrote (string_enc tg)" "isWrote (reflectValueQuoted E y qg)"
        "isWrote (structLoop E pre False)"
      by auto
    from Cons.IH [OF w(3) Cons.prems(2-6)] obtain p' where
      "structLoop E (pre @ (f, x) # post) False = Panicked p' err" by blast
    with w(1,2) False a fo show ?thesis
      by (auto simp: isWrote_iff)
  qed
qed


lemma reached_panic:
  "reached E v q path = Some (w, q') \<Longrightarrow> reflectValueQuoted E w q' = Panicked p err \<Longrightarrow>
   \<exists>p'. reflectValueQuoted E v q = Panicked p' err"
proof (induction path arbitrary: v q)
  case Nil
  then show ?case by simp
next
  case (Cons s path)
  show ?case
  proof (cases s)
    case Deref
    show ?thesis
    proof (cases v)
      case (VInterfaceOrPtr x)
      show ?thesis
      proof (cases x)
        case None
        with Cons.prems Deref VInterfaceOrPtr show ?thesis by simp
      next
        case (Some y)
        with Cons.prems Deref VInterfaceOrPtr have "reached E y False path = Some (w, q')" by simp
        from Cons.IH [OF this Cons.prems(2)] Some VInterfaceOrPtr show ?thesis by simp
      qed
    qed (use Cons.prems Deref in simp_all)
  next
    case (Index n)
    show ?thesis
    proof (cases v)
      case (VArrayOrSlice t xs)
      with Cons.prems Index have c: "t \<noteq> byteSliceType" "n < length xs"
          "isWrote (arrayLoop E (take n xs) 0)" "reached E (xs ! n) False path = Some (w, q')"
        by (simp_all split: if_splits)
      from Cons.IH [OF c(4) Cons.prems(2)] obtain p1 where
        "reflectValue E (xs ! n) = Panicked p1 err" by auto
      from arrayLoop_panic [OF c(3) this] obtain p2 where
        "arrayLoop E (take n xs @ xs ! n # drop (Suc n) xs) 0 = Panicked p2 err" by blast
      moreover have "take n xs @ xs ! n # drop (Suc n) xs = xs"
        using id_take_nth_drop [OF c(2)] by simp
      ultimately have "arrayLoop E xs 0 = Panicked p2 err" by simp
      with c(1) VArrayOrSlice show ?thesis by simp
    qed (use Cons.prems Index in simp_all)
  next
    case (Field n)
    show ?thesis
    proof (cases v)
      case (VStruct fs)
      obtain f x where fx: "fs ! n = (f, x)" by (cases "fs ! n")
      obtain tag om qu where fo: "fieldOptions E f = (tag, om, qu)"
        by (cases "fieldOptions E f")
      from Cons.prems Field VStruct fx fo have c: "n < length fs"
          "isWrote (structLoop E (take n fs) True)" "PkgPath f = []"
          "\<not> (om \<and> isEmptyValue x)" "isWrote (string_enc tag)"
          "reached E x qu path = Some (w, q')"
        by (simp_all split: if_splits)
      from Cons.IH [OF c(6) Cons.prems(2)] obtain p1 where
        "reflectValueQuoted E x qu = Panicked p1 err" by auto
      from structLoop_panic [OF c(2,3) fo c(4,5) this] obtain p2 where
        "structLoop E (take n fs @ (f, x) # drop (Suc n) fs) True = Panicked p2 err" by blast
      moreover have "take n fs @ (f, x) # drop (Suc n) fs = fs"
        using id_take_nth_drop [OF c(1)] fx by simp
      ultimately have "structLoop E fs True = Panicked p2 err" by simp
      with VStruct show ?thesis by simp
    qed (use Cons.prems Field in simp_all)
  next
    case (Key n)
    show ?thesis
    proof (cases v)
      case (VMap t k m)
      show ?thesis
      proof (cases m)
        case None
        with Cons.prems Key VMap show ?thesis by simp
      next
        case (Some es)
        let ?ks = "sort (map fst es)"
        from Cons.prems Key VMap Some have c: "k = KString" "n < length ?ks"
            "isWrote (mapLoop E es (take n ?ks) 0)" "isWrote (string_enc (?ks ! n))"
            "reached E (MapIndex es (?ks ! n)) False path = Some (w, q')"
          by (simp_all split: if_splits)
        from Cons.IH [OF c(5) Cons.prems(2)] obtain p1 where
          "reflectValue E (MapIndex es (?ks ! n)) = Panicked p1 err" by auto
        from mapLoop_panic_value [OF c(3,4) this] obtain p2 where
          "mapLoop E es (take n ?ks @ ?ks ! n # drop (Suc n) ?ks) 0 = Panicked p2 err" by blast
        moreover have "take n ?ks @ ?ks ! n # drop (Suc n) ?ks = ?ks"
          using id_take_nth_drop [OF c(2)] by simp
        ultimately have "mapLoop E es ?ks 0 = Panicked p2 err" by simp
        with c(1) VMap Some show ?thesis by simp
      qed
    qed (use Cons.prems Key in simp_all)
  qed
qed

lemma Marshal_panic:
  "reflectValueQuoted E v False = Panicked p err \<Longrightarrow> Marshal E v = (None, Some err)"
  by simp

lemma string_invalid_panics:
  "\<not> validUTF8 s \<Longrightarrow> \<exists>p. reflectValueQuoted E (VString s) q = Panicked p (InvalidUTF8Error s)"
  using string_enc_invalid [of s] by (cases q) auto


lemma map_key_invalid_panics:
  assumes "n < length (sort (map fst es))"
    and "isWrote (mapLoop E es (take n (sort (map fst es))) 0)"
    and "\<not> validUTF8 (sort (map fst es) ! n)"
  shows "\<exists>p. reflectValueQuoted E (VMap t KString (Some es)) q
           = Panicked p (InvalidUTF8Error (sort (map fst es) ! n))"
proof -
  let ?ks = "sort (map fst es)"
  from string_enc_invalid [OF assms(3)] obtain p1 where
    "string_enc (?ks ! n) = Panicked p1 (InvalidUTF8Error (?ks ! n))" by blast
  from mapLoop_panic_key [OF assms(2) this] obtain p2 where
    "mapLoop E es (take n ?ks @ ?ks ! n # drop (Suc n) ?ks) 0
       = Panicked p2 (InvalidUTF8Error (?ks ! n))" by blast
  moreover have "take n ?ks @ ?ks ! n # drop (Suc n) ?ks = ?ks"
    using id_take_nth_drop [OF assms(1)] by simp
  ultimately have "mapLoop E es ?ks 0 = Panicked p2 (InvalidUTF8Error (?ks ! n))" by simp
  then show ?thesis by simp
qed

section \<open>Invalid UTF-8\<close>

text \<open>
  C2, as amended. A string that does not decode as UTF-8 (a stray or missing
  continuation byte, an overlong form, a surrogate half, a code point above U+10FFFF, a
  byte that starts no sequence) makes Marshal return the
  InvalidUTF8 error for that string and no bytes, with no replacement character
  written, when the string is the input or is reached by the traversal; so does a map
  key that does not decode, in a map that is the input or is reached, when the entries
  before it were written. The buffer of \<open>marshal\<close> holds what was written before the
  panic; Marshal drops it.
\<close>

theorem invalid_utf8_reached:
  "(\<not> validUTF8 s \<longrightarrow> Marshal E (VString s) = (None, Some (InvalidUTF8Error s)))
   \<and> (\<not> validUTF8 s \<and> reached E v False path = Some (VString s, q') \<longrightarrow>
        Marshal E v = (None, Some (InvalidUTF8Error s)))
   \<and> (reached E v False path = Some (VMap t KString (Some es), q')
        \<and> n < length (sort (map fst es))
        \<and> isWrote (mapLoop E es (take n (sort (map fst es))) 0)
        \<and> \<not> validUTF8 (sort (map fst es) ! n) \<longrightarrow>
        Marshal E v = (None, Some (InvalidUTF8Error (sort (map fst es) ! n))))"
proof -
  have a: "Marshal E v = (None, Some (InvalidUTF8Error s))"
    if "\<not> validUTF8 s" "reached E v False path = Some (VString s, q')" for v path
  proof -
    from string_invalid_panics [OF that(1)] obtain p where
      "reflectValueQuoted E (VString s) q' = Panicked p (InvalidUTF8Error s)" by blast
    from reached_panic [OF that(2) this] obtain p' where
      "reflectValueQuoted E v False = Panicked p' (InvalidUTF8Error s)" by blast
    then show ?thesis by (rule Marshal_panic)
  qed
  have b: "Marshal E (VString s) = (None, Some (InvalidUTF8Error s))" if "\<not> validUTF8 s"
  proof -
    from string_invalid_panics [OF that] obtain p where
      "reflectValueQuoted E (VString s) False = Panicked p (InvalidUTF8Error s)" by blast
    then show ?thesis by (rule Marshal_panic)
  qed
  have c: "Marshal E v = (None, Some (InvalidUTF8Error (sort (map fst es) ! n)))"
    if "reached E v False path = Some (VMap t KString (Some es), q')"
      "n < length (sort (map fst es))"
      "isWrote (mapLoop E es (take n (sort (map fst es))) 0)"
      "\<not> validUTF8 (sort (map fst es) ! n)"
  proof -
    from map_key_invalid_panics [OF that(2,3,4)] obtain p where
      "reflectValueQuoted E (VMap t KString (Some es)) q'
         = Panicked p (InvalidUTF8Error (sort (map fst es) ! n))" by blast
    from reached_panic [OF that(1) this] obtain p' where
      "reflectValueQuoted E v False = Panicked p' (InvalidUTF8Error (sort (map fst es) ! n))"
      by blast
    then show ?thesis by (rule Marshal_panic)
  qed
  from a b c show ?thesis by blast
qed

lemma string_enc_ff: "string_enc [CHR 0xFF] = Panicked [CHR 0x22] (InvalidUTF8Error [CHR 0xFF])"
proof -
  have "stringLoop [CHR 0xFF] 0 0 = Panicked [] (InvalidUTF8Error [CHR 0xFF])"
    by (rule stringLoop_invalid [where c = RuneError and sz = 1]) simp_all
  then show ?thesis by (simp add: string_enc_def)
qed

theorem invalid_utf8_reached_witness:
  "\<not> validUTF8 [CHR 0xFF]
   \<and> reached exampleEnv
        (VStruct [(\<lparr>Name = ''A'', PkgPath = [], Tag = []\<rparr>,
                   VArrayOrSlice ''[]string'' [VString ''ok'', VString [CHR 0xFF]])])
        False [Field 0, Index 1] = Some (VString [CHR 0xFF], False)
   \<and> Marshal exampleEnv
        (VStruct [(\<lparr>Name = ''A'', PkgPath = [], Tag = []\<rparr>,
                   VArrayOrSlice ''[]string'' [VString ''ok'', VString [CHR 0xFF]])])
      = (None, Some (InvalidUTF8Error [CHR 0xFF]))
   \<and> marshal exampleEnv
        (VStruct [(\<lparr>Name = ''A'', PkgPath = [], Tag = []\<rparr>,
                   VArrayOrSlice ''[]string'' [VString ''ok'', VString [CHR 0xFF]])])
      = (''{\"A\":[\"ok\",\"'', Some (InvalidUTF8Error [CHR 0xFF]))
   \<and> Marshal exampleEnv (VMap ''map[string]bool'' KString (Some [([CHR 0xFF], VBool True)]))
      = (None, Some (InvalidUTF8Error [CHR 0xFF]))
   \<and> \<not> validUTF8 [CHR 0xED, CHR 0xA0, CHR 0x80]
   \<and> Marshal exampleEnv (VString [CHR 0xED, CHR 0xA0, CHR 0x80])
      = (None, Some (InvalidUTF8Error [CHR 0xED, CHR 0xA0, CHR 0x80]))
   \<and> \<not> validUTF8 [CHR 0xF4, CHR 0x90, CHR 0x80, CHR 0x80]
   \<and> Marshal exampleEnv (VString [CHR 0xF4, CHR 0x90, CHR 0x80, CHR 0x80])
      = (None, Some (InvalidUTF8Error [CHR 0xF4, CHR 0x90, CHR 0x80, CHR 0x80]))
   \<and> \<not> validUTF8 [CHR 0xF7, CHR 0xBF, CHR 0xBF, CHR 0xBF]
   \<and> Marshal exampleEnv (VString [CHR 0xF7, CHR 0xBF, CHR 0xBF, CHR 0xBF])
      = (None, Some (InvalidUTF8Error [CHR 0xF7, CHR 0xBF, CHR 0xBF, CHR 0xBF]))
   \<and> \<not> validUTF8 [CHR 0xC0, CHR 0x80]
   \<and> \<not> validUTF8 [CHR 0xE2, CHR 0x82]
   \<and> validUTF8 [CHR 0xE2, CHR 0x82, CHR 0xAC]
   \<and> validUTF8 [CHR 0xED, CHR 0x9F, CHR 0xBF]
   \<and> validUTF8 [CHR 0xF4, CHR 0x8F, CHR 0xBF, CHR 0xBF]"
proof -
  let ?v = "VStruct [(\<lparr>Name = ''A'', PkgPath = [], Tag = []\<rparr>,
                   VArrayOrSlice ''[]string'' [VString ''ok'', VString [CHR 0xFF]])]"
  let ?sur = "[CHR 0xED, CHR 0xA0, CHR 0x80]"
  let ?big = "[CHR 0xF4, CHR 0x90, CHR 0x80, CHR 0x80]"
  let ?f7 = "[CHR 0xF7, CHR 0xBF, CHR 0xBF, CHR 0xBF]"
  have bad: "\<not> validUTF8 ?sur" "\<not> validUTF8 ?big" "\<not> validUTF8 ?f7"
      "\<not> validUTF8 [CHR 0xC0, CHR 0x80]" "\<not> validUTF8 [CHR 0xE2, CHR 0x82]"
    by (simp_all add: isCont_def rune2_def rune3_def rune4_def surrogateMin_def
        surrogateMax_def MaxRune_def RuneError_def)
  have good: "validUTF8 [CHR 0xE2, CHR 0x82, CHR 0xAC]" "validUTF8 [CHR 0xED, CHR 0x9F, CHR 0xBF]"
      "validUTF8 [CHR 0xF4, CHR 0x8F, CHR 0xBF, CHR 0xBF]"
    by (simp_all add: isCont_def rune2_def rune3_def rune4_def surrogateMin_def
        surrogateMax_def MaxRune_def RuneError_def)
  have e1: "Marshal exampleEnv (VString ?sur) = (None, Some (InvalidUTF8Error ?sur))"
    using invalid_utf8_reached [of ?sur exampleEnv] bad(1) by blast
  have e2: "Marshal exampleEnv (VString ?big) = (None, Some (InvalidUTF8Error ?big))"
    using invalid_utf8_reached [of ?big exampleEnv] bad(2) by blast
  have e3: "Marshal exampleEnv (VString ?f7) = (None, Some (InvalidUTF8Error ?f7))"
    using invalid_utf8_reached [of ?f7 exampleEnv] bad(3) by blast
  let ?es = "[([CHR 0xFF], VBool True)]"
  have nv: "\<not> validUTF8 [CHR 0xFF]" by simp
  have ok: "string_enc ''ok'' = Wrote ''\"ok\"''" "string_enc ''A'' = Wrote ''\"A\"''"
    by (simp_all add: string_enc_plain safeByte_def)
  have r: "reached exampleEnv ?v False [Field 0, Index 1] = Some (VString [CHR 0xFF], False)"
    by (simp add: fieldOptions_def byteSliceType_def ok)
  have m: "Marshal exampleEnv ?v = (None, Some (InvalidUTF8Error [CHR 0xFF]))"
    using invalid_utf8_reached [of "[CHR 0xFF]" exampleEnv ?v "[Field 0, Index 1]" False] nv r
    by blast
  have p: "marshal exampleEnv ?v = (''{\"A\":[\"ok\",\"'', Some (InvalidUTF8Error [CHR 0xFF]))"
    by (simp add: fieldOptions_def byteSliceType_def ok string_enc_ff)
  have "reached exampleEnv (VMap ''map[string]bool'' KString (Some ?es)) False []
          = Some (VMap ''map[string]bool'' KString (Some ?es), False)" by simp
  moreover have "0 < length (sort (map fst ?es))"
    "isWrote (mapLoop exampleEnv ?es (take 0 (sort (map fst ?es))) 0)"
    "\<not> validUTF8 (sort (map fst ?es) ! 0)" by simp_all
  ultimately have k: "Marshal exampleEnv (VMap ''map[string]bool'' KString (Some ?es))
      = (None, Some (InvalidUTF8Error (sort (map fst ?es) ! 0)))"
    using invalid_utf8_reached [of _ exampleEnv "VMap ''map[string]bool'' KString (Some ?es)" "[]"
        False "''map[string]bool''" ?es 0]
    by blast
  have k': "Marshal exampleEnv (VMap ''map[string]bool'' KString (Some ?es))
      = (None, Some (InvalidUTF8Error [CHR 0xFF]))"
    using k by simp
  show ?thesis using nv r m p k' bad good e1 e2 e3 by (simp only: simp_thms)
qed

text \<open>
  The claim as stated fails for an input that contains such a string where the
  traversal does not encode it: in an unexported struct field the string is skipped and
  the struct encodes as \<open>{}\<close>; after an element that fails first, the error is that
  element's.
\<close>

theorem unexported_invalid_string_encodes:
  "\<not> validUTF8 [CHR 0xFF]
   \<and> Marshal exampleEnv
        (VStruct [(\<lparr>Name = ''s'', PkgPath = ''main'', Tag = []\<rparr>, VString [CHR 0xFF])])
      = (Some ''{}'', None)
   \<and> Marshal exampleEnv
        (VArrayOrSlice ''[]interface {}'' [VOther ''func()'', VString [CHR 0xFF]])
      = (None, Some (UnsupportedTypeError ''func()''))"
  by (simp add: byteSliceType_def)

section \<open>Unsupported types\<close>

text \<open>
  C3, as amended. A value of a kind the encoder does not represent (complex, chan,
  func, unsafe pointer), or a map whose key kind is not string (nil or not), makes
  Marshal return the UnsupportedType error for its type and no bytes, when the value is
  the input or is reached by the traversal.
\<close>

theorem unsupported_type_reached:
  "Marshal E (VOther t) = (None, Some (UnsupportedTypeError t))
   \<and> (k \<noteq> KString \<longrightarrow> Marshal E (VMap t k m) = (None, Some (UnsupportedTypeError t)))
   \<and> (reached E v False path = Some (VOther t, q') \<longrightarrow>
        Marshal E v = (None, Some (UnsupportedTypeError t)))
   \<and> (k \<noteq> KString \<and> reached E v False path = Some (VMap t k m, q') \<longrightarrow>
        Marshal E v = (None, Some (UnsupportedTypeError t)))"
proof -
  have a: "Marshal E v = (None, Some (UnsupportedTypeError t))"
    if "reached E v False path = Some (VOther t, q')"
  proof -
    have "reflectValueQuoted E (VOther t) q' = Panicked [] (UnsupportedTypeError t)" by simp
    from reached_panic [OF that this] obtain p' where
      "reflectValueQuoted E v False = Panicked p' (UnsupportedTypeError t)" by blast
    then show ?thesis by (rule Marshal_panic)
  qed
  have b: "Marshal E v = (None, Some (UnsupportedTypeError t))"
    if "k \<noteq> KString" "reached E v False path = Some (VMap t k m, q')"
  proof -
    have "reflectValueQuoted E (VMap t k m) q' = Panicked [] (UnsupportedTypeError t)"
      using that(1) by simp
    from reached_panic [OF that(2) this] obtain p' where
      "reflectValueQuoted E v False = Panicked p' (UnsupportedTypeError t)" by blast
    then show ?thesis by (rule Marshal_panic)
  qed
  from a b show ?thesis by simp
qed

theorem unsupported_type_reached_witness:
  "reached exampleEnv
     (VInterfaceOrPtr (Some (VStruct
        [(\<lparr>Name = ''A'', PkgPath = [], Tag = []\<rparr>, VInt 1),
         (\<lparr>Name = ''F'', PkgPath = [], Tag = []\<rparr>, VOther ''func()'')])))
     False [Deref, Field 1] = Some (VOther ''func()'', False)
   \<and> Marshal exampleEnv
     (VInterfaceOrPtr (Some (VStruct
        [(\<lparr>Name = ''A'', PkgPath = [], Tag = []\<rparr>, VInt 1),
         (\<lparr>Name = ''F'', PkgPath = [], Tag = []\<rparr>, VOther ''func()'')])))
     = (None, Some (UnsupportedTypeError ''func()''))
   \<and> marshal exampleEnv
     (VInterfaceOrPtr (Some (VStruct
        [(\<lparr>Name = ''A'', PkgPath = [], Tag = []\<rparr>, VInt 1),
         (\<lparr>Name = ''F'', PkgPath = [], Tag = []\<rparr>, VOther ''func()'')])))
     = (''{\"A\":1,\"F\":'', Some (UnsupportedTypeError ''func()''))
   \<and> Marshal exampleEnv (VMap ''map[int]string'' KInt None)
     = (None, Some (UnsupportedTypeError ''map[int]string''))
   \<and> Marshal exampleEnv
        (VArrayOrSlice ''[]map[int]string''
           [VMap ''map[int]string'' KInt (Some [(''1'', VString ''x'')])])
     = (None, Some (UnsupportedTypeError ''map[int]string''))"
proof -
  let ?v = "VInterfaceOrPtr (Some (VStruct
        [(\<lparr>Name = ''A'', PkgPath = [], Tag = []\<rparr>, VInt 1),
         (\<lparr>Name = ''F'', PkgPath = [], Tag = []\<rparr>, VOther ''func()'')]))"
  let ?m = "VMap ''map[int]string'' KInt (Some [(''1'', VString ''x'')])"
  have ok: "string_enc ''A'' = Wrote ''\"A\"''" "string_enc ''F'' = Wrote ''\"F\"''"
    by (simp_all add: string_enc_plain safeByte_def)
  have one: "Itoa64 1 = ''1''"
    by (simp add: Itoa64_def Uitoa64_def digits_small hex_def)
  have r: "reached exampleEnv ?v False [Deref, Field 1] = Some (VOther ''func()'', False)"
    by (simp add: fieldOptions_def ok one writeString_def)
  have m: "Marshal exampleEnv ?v = (None, Some (UnsupportedTypeError ''func()''))"
    using unsupported_type_reached [of exampleEnv "''func()''" _ _ ?v "[Deref, Field 1]" False] r
    by blast
  have p: "marshal exampleEnv ?v = (''{\"A\":1,\"F\":'', Some (UnsupportedTypeError ''func()''))"
    by (simp add: fieldOptions_def ok one writeString_def)
  have n: "Marshal exampleEnv (VMap ''map[int]string'' KInt None)
     = (None, Some (UnsupportedTypeError ''map[int]string''))"
    using unsupported_type_reached [of exampleEnv "''map[int]string''" KInt None] by simp
  have r2: "reached exampleEnv (VArrayOrSlice ''[]map[int]string'' [?m]) False [Index 0]
      = Some (?m, False)"
    by (simp add: byteSliceType_def)
  have e: "Marshal exampleEnv (VArrayOrSlice ''[]map[int]string'' [?m])
     = (None, Some (UnsupportedTypeError ''map[int]string''))"
    using unsupported_type_reached [of exampleEnv "''map[int]string''" KInt
        "Some [(''1'', VString ''x'')]" "VArrayOrSlice ''[]map[int]string'' [?m]" "[Index 0]" False] r2
    by simp
  show ?thesis using r m p n e by simp
qed

text \<open>
  The claim as stated fails for an input that contains such a value where the traversal
  does not encode it: a func in an unexported struct field is skipped and the struct
  encodes as \<open>{}\<close>; after a string that fails first, the error is InvalidUTF8.
\<close>

theorem unexported_func_field_encodes:
  "Marshal exampleEnv
     (VStruct [(\<lparr>Name = ''f'', PkgPath = ''main'', Tag = []\<rparr>, VOther ''func()'')])
     = (Some ''{}'', None)
   \<and> Marshal exampleEnv
        (VArrayOrSlice ''[]interface {}'' [VString [CHR 0xFF], VOther ''func()''])
     = (None, Some (InvalidUTF8Error [CHR 0xFF]))"
  by (simp add: byteSliceType_def string_enc_ff)

end
